theory Spec2Isabelle
  imports Main
begin

section \<open>The CSS selector builder of src/06-objects-tasks.js\<close>

text \<open>
  The builder is the object \<open>cssSelectorBuilder\<close> with six part methods and \<open>combine\<close>.
  Every part method runs \<open>new XSelector(value, this)\<close>; the six constructors have one and
  the same body. Each constructor's prototype object inherits from \<open>cssSelectorBuilder\<close>
  (\<open>selectorBase.prototype = cssSelectorBuilder\<close>, \<open>XSelector.prototype =
  Object.create(selectorBase.prototype)\<close>) and overrides some part methods with one of
  two functions that throw.

  Objects made by the constructors carry the assigned fields \<open>value\<close> and \<open>prevValue\<close>;
  they live in an explicit store (a list, the address of an object is its index, \<open>new\<close>
  appends), so that what an operation writes is visible in its result. The object made by
  \<open>combine\<close> has no field: it is a closure over the three parameters, none of which is
  ever assigned, and is modelled as a value holding them.
\<close>

subsection \<open>Data\<close>

text \<open>The six constructor functions; an object's prototype is named by its constructor.\<close>

datatype proto =
  ElementSelector | IdSelector | ClassSelector | AttrSelector
  | PseudoClassSelector | PseudoElementSelector

text \<open>The six part methods \<open>element\<close>, \<open>id\<close>, \<open>class\<close>, \<open>attr\<close>, \<open>pseudoClass\<close>,
  \<open>pseudoElement\<close>.\<close>

datatype part_op =
  element_m | id_m | class_m | attr_m | pseudoClass_m | pseudoElement_m

record fragment =
  prototype :: proto
  "value" :: string
  prevValue :: string

type_synonym store = "fragment list"

text \<open>
  What a variable of a client can hold: the builder object itself, a reference to an
  object of the store, or the object returned by \<open>combine\<close>.
\<close>

datatype sel = Builder | Ref nat | Combined sel string sel

text \<open>
  Both throwing functions throw a plain \<open>Error\<close>; the constructor of the model's error
  names the function that threw and carries the message. \<open>NotAFunction\<close> is the
  TypeError of calling a part method on the object returned by \<open>combine\<close>, which has
  only \<open>stringify\<close>. \<open>NoSuchObject\<close> is no outcome of the program: it is the model's
  answer for an address outside the store, which no execution produces.
\<close>

datatype error =
  OrderViolation string | CardinalityViolation string | NotAFunction | NoSuchObject

subsection \<open>The throwing functions\<close>

text \<open>
  \<open>selectorsOrderError\<close> passes a regular expression literal to \<open>Error\<close>, whose message
  is the literal's text, slashes included; \<open>multipleSelectorsError\<close> passes a string.
\<close>

definition selectorsOrderError :: error where
  "selectorsOrderError = OrderViolation
     ''/Selector parts should be arranged in the following order: element, id, class, attribute, pseudo-class, pseudo-element/''"

definition multipleSelectorsError :: error where
  "multipleSelectorsError = CardinalityViolation
     ''Element, id and pseudo-element should not occur more then one time inside the selector''"

subsection \<open>Rendering\<close>

text \<open>\<open>currentValueStr\<close>: \<open>ElementSelector\<close> inherits the one of \<open>selectorBase.prototype\<close>,
  the other five prototypes define their own.\<close>

fun currentValueStr :: "proto \<Rightarrow> string \<Rightarrow> string" where
  "currentValueStr ElementSelector v = v"
| "currentValueStr IdSelector v = ''#'' @ v"
| "currentValueStr ClassSelector v = ''.'' @ v"
| "currentValueStr AttrSelector v = ''['' @ v @ '']''"
| "currentValueStr PseudoClassSelector v = '':'' @ v"
| "currentValueStr PseudoElementSelector v = ''::'' @ v"

text \<open>
  \<open>stringify\<close> is \<open>prevValue\<close> followed by \<open>currentValueStr()\<close>. The builder object has
  the method too (it is \<open>selectorBase.prototype\<close>) and neither field, so both template
  holes print \<open>undefined\<close>. The closure of \<open>combine\<close> calls \<open>stringify\<close> of its two
  selectors when it is called itself.
\<close>

fun stringify :: "sel \<Rightarrow> store \<Rightarrow> (error + string) \<times> store" where
  "stringify Builder h = (Inr (''undefined'' @ ''undefined''), h)"
| "stringify (Ref a) h =
     (if a < length h
      then (Inr (prevValue (h ! a) @ currentValueStr (prototype (h ! a)) (value (h ! a))), h)
      else (Inl NoSuchObject, h))"
| "stringify (Combined selector1 combinator selector2) h =
     (case stringify selector1 h of
        (Inl e, h1) \<Rightarrow> (Inl e, h1)
      | (Inr s1, h1) \<Rightarrow>
          (case stringify selector2 h1 of
             (Inl e, h2) \<Rightarrow> (Inl e, h2)
           | (Inr s2, h2) \<Rightarrow> (Inr (s1 @ '' '' @ combinator @ '' '' @ s2), h2)))"

subsection \<open>Construction\<close>

text \<open>\<open>builder instanceof selectorBase\<close>: is \<open>cssSelectorBuilder\<close> on the prototype chain
  of \<open>builder\<close>. It is for every object of the six constructors, not for
  \<open>cssSelectorBuilder\<close> itself and not for the plain object of \<open>combine\<close>.\<close>

fun instanceof_selectorBase :: "sel \<Rightarrow> bool" where
  "instanceof_selectorBase Builder = False"
| "instanceof_selectorBase (Ref a) = True"
| "instanceof_selectorBase (Combined s1 c s2) = False"

text \<open>The body shared by the six constructors, run by \<open>new\<close>: the new object is appended
  to the store and its reference returned.\<close>

definition new_selector :: "proto \<Rightarrow> string \<Rightarrow> sel \<Rightarrow> store \<Rightarrow> (error + sel) \<times> store" where
  "new_selector p v builder h =
     (if instanceof_selectorBase builder
      then (case stringify builder h of
              (Inl e, h1) \<Rightarrow> (Inl e, h1)
            | (Inr s, h1) \<Rightarrow>
                (Inr (Ref (length h1)), h1 @ [\<lparr>prototype = p, value = v, prevValue = s\<rparr>]))
      else (Inr (Ref (length h)), h @ [\<lparr>prototype = p, value = v, prevValue = []\<rparr>]))"

text \<open>Which constructor each method of \<open>cssSelectorBuilder\<close> runs.\<close>

fun constructs :: "part_op \<Rightarrow> proto" where
  "constructs element_m = ElementSelector"
| "constructs id_m = IdSelector"
| "constructs class_m = ClassSelector"
| "constructs attr_m = AttrSelector"
| "constructs pseudoClass_m = PseudoClassSelector"
| "constructs pseudoElement_m = PseudoElementSelector"

text \<open>The assignments \<open>XSelector.prototype.m = f\<close>: the part methods a prototype
  overrides, with what the assigned function throws.\<close>

fun override :: "proto \<Rightarrow> part_op \<Rightarrow> error option" where
  "override ElementSelector element_m = Some multipleSelectorsError"
| "override IdSelector id_m = Some multipleSelectorsError"
| "override IdSelector element_m = Some selectorsOrderError"
| "override ClassSelector element_m = Some selectorsOrderError"
| "override ClassSelector id_m = Some selectorsOrderError"
| "override AttrSelector element_m = Some selectorsOrderError"
| "override AttrSelector id_m = Some selectorsOrderError"
| "override AttrSelector class_m = Some selectorsOrderError"
| "override PseudoClassSelector element_m = Some selectorsOrderError"
| "override PseudoClassSelector id_m = Some selectorsOrderError"
| "override PseudoClassSelector class_m = Some selectorsOrderError"
| "override PseudoClassSelector attr_m = Some selectorsOrderError"
| "override PseudoElementSelector pseudoElement_m = Some multipleSelectorsError"
| "override PseudoElementSelector element_m = Some selectorsOrderError"
| "override PseudoElementSelector id_m = Some selectorsOrderError"
| "override PseudoElementSelector class_m = Some selectorsOrderError"
| "override PseudoElementSelector attr_m = Some selectorsOrderError"
| "override PseudoElementSelector pseudoClass_m = Some selectorsOrderError"
| "override p m = None"

text \<open>
  The method call \<open>receiver.m(v)\<close>: the property is looked up on the receiver's own
  prototype first, then on \<open>cssSelectorBuilder\<close>, whose method runs the constructor with
  the receiver as \<open>this\<close>. A throwing function throws before anything is made.
\<close>

fun call :: "part_op \<Rightarrow> string \<Rightarrow> sel \<Rightarrow> store \<Rightarrow> (error + sel) \<times> store" where
  "call m v Builder h = new_selector (constructs m) v Builder h"
| "call m v (Ref a) h =
     (if a < length h
      then (case override (prototype (h ! a)) m of
              Some e \<Rightarrow> (Inl e, h)
            | None \<Rightarrow> new_selector (constructs m) v (Ref a) h)
      else (Inl NoSuchObject, h))"
| "call m v (Combined s1 c s2) h = (Inl NotAFunction, h)"

text \<open>\<open>combine\<close> returns the closure; it calls nothing and checks nothing.\<close>

definition combine :: "sel \<Rightarrow> string \<Rightarrow> sel \<Rightarrow> store \<Rightarrow> (error + sel) \<times> store" where
  "combine selector1 combinator selector2 h = (Inr (Combined selector1 combinator selector2), h)"

text \<open>A chain \<open>receiver.m1(v1).m2(v2)...\<close>: each call is made on the result of the one
  before, and a throw ends the chain.\<close>

fun chain :: "(part_op \<times> string) list \<Rightarrow> sel \<Rightarrow> store \<Rightarrow> (error + sel) \<times> store" where
  "chain [] r h = (Inr r, h)"
| "chain ((m, v) # ops) r h =
     (case call m v r h of
        (Inl e, h1) \<Rightarrow> (Inl e, h1)
      | (Inr r1, h1) \<Rightarrow> chain ops r1 h1)"

text \<open>A selector is in a store when every reference in it is to an object of the store.\<close>

fun in_store :: "store \<Rightarrow> sel \<Rightarrow> bool" where
  "in_store h Builder = True"
| "in_store h (Ref a) = (a < length h)"
| "in_store h (Combined s1 c s2) = (in_store h s1 \<and> in_store h s2)"

subsection \<open>The specification's notions\<close>

text \<open>The position of a kind in the total order Element(0) < Id(1) < Class(2) <
  Attribute(3) < PseudoClass(4) < PseudoElement(5), and the kind of a part operation.\<close>

fun position :: "proto \<Rightarrow> nat" where
  "position ElementSelector = 0"
| "position IdSelector = 1"
| "position ClassSelector = 2"
| "position AttrSelector = 3"
| "position PseudoClassSelector = 4"
| "position PseudoElementSelector = 5"

definition kinds :: "(part_op \<times> string) list \<Rightarrow> proto list" where
  "kinds ops = map (\<lambda>op. constructs (fst op)) ops"

text \<open>The single-occurrence kinds, and the chains that respect the order and the limits.\<close>

fun single_occurrence :: "proto \<Rightarrow> bool" where
  "single_occurrence ElementSelector = True"
| "single_occurrence IdSelector = True"
| "single_occurrence PseudoElementSelector = True"
| "single_occurrence k = False"

definition valid_kinds :: "proto list \<Rightarrow> bool" where
  "valid_kinds ks =
     (sorted (map position ks) \<and>
      list_all (\<lambda>k. single_occurrence k \<longrightarrow> count_list ks k \<le> 1) ks)"

definition valid_chain :: "(part_op \<times> string) list \<Rightarrow> bool" where
  "valid_chain ops = valid_kinds (kinds ops)"

text \<open>The per-kind rendering as the specification words it: a token before the payload
  and, for an attribute, one after it.\<close>

fun perKindRender :: "proto \<Rightarrow> string \<Rightarrow> string" where
  "perKindRender ElementSelector v = v"
| "perKindRender IdSelector v = ''#'' @ v"
| "perKindRender ClassSelector v = ''.'' @ v"
| "perKindRender AttrSelector v = ''['' @ v @ '']''"
| "perKindRender PseudoClassSelector v = '':'' @ v"
| "perKindRender PseudoElementSelector v = ''::'' @ v"

definition rendering :: "(part_op \<times> string) list \<Rightarrow> string" where
  "rendering ops = concat (map (\<lambda>op. perKindRender (constructs (fst op)) (snd op)) ops)"

section \<open>Properties of the operations\<close>

subsection \<open>Rendering and the store\<close>

lemma stringify_store: "snd (stringify s h) = h"
proof (induction s arbitrary: h)
  case Builder
  show ?case by simp
next
  case (Ref a)
  show ?case by simp
next
  case (Combined s1 c s2)
  obtain r1 h1 where a: "stringify s1 h = (r1, h1)" by (cases "stringify s1 h")
  with Combined.IH(1) [of h] have h1: "h1 = h" by simp
  obtain r2 h2 where b: "stringify s2 h = (r2, h2)" by (cases "stringify s2 h")
  with Combined.IH(2) [of h] have h2: "h2 = h" by simp
  from a b h1 h2 show ?case by (simp split: sum.splits)
qed

lemma stringify_in_store: "in_store h s \<Longrightarrow> \<exists>str. stringify s h = (Inr str, h)"
  by (induction s) auto

lemma stringify_append:
  "in_store h s \<Longrightarrow> stringify s (h @ xs) = (fst (stringify s h), h @ xs)"
proof (induction s)
  case Builder
  then show ?case by simp
next
  case (Ref a)
  then show ?case by (simp add: nth_append)
next
  case (Combined s1 c s2)
  then obtain x y where "stringify s1 h = (Inr x, h)" "stringify s2 h = (Inr y, h)"
    using stringify_in_store by (metis in_store.simps(3))
  with Combined show ?case by simp
qed

lemma override_order:
  "position (constructs m) < position p \<Longrightarrow> override p m = Some selectorsOrderError"
  by (cases p; cases m) simp_all

lemma override_multiple:
  "single_occurrence (constructs m) \<Longrightarrow> override (constructs m) m = Some multipleSelectorsError"
  by (cases m) simp_all

lemma override_None:
  "position p \<le> position (constructs m) \<Longrightarrow> \<not> (p = constructs m \<and> single_occurrence p)
   \<Longrightarrow> override p m = None"
  by (cases p; cases m) simp_all

lemma call_extends: "call m v r h = (res, h') \<Longrightarrow> \<exists>xs. h' = h @ xs"
  by (cases r) (auto simp: new_selector_def split: if_splits option.splits)

lemma chain_extends: "chain ops r h = (res, h') \<Longrightarrow> \<exists>xs. h' = h @ xs"
proof (induction ops arbitrary: r h)
  case Nil
  then show ?case by simp
next
  case (Cons op ops)
  obtain m v where op: "op = (m, v)" by (cases op)
  obtain res1 h1 where c: "call m v r h = (res1, h1)" by (cases "call m v r h")
  then obtain xs where h1: "h1 = h @ xs" using call_extends by blast
  show ?case
  proof (cases res1)
    case (Inl e)
    with Cons.prems op c h1 show ?thesis by auto
  next
    case (Inr r1)
    with Cons.prems op c have "chain ops r1 h1 = (res, h')" by simp
    from Cons.IH [OF this] h1 show ?thesis by auto
  qed
qed

subsection \<open>Chains that respect the order are built\<close>

lemma valid_chain_kinds: "valid_chain ops = valid_kinds (kinds ops)"
  by (simp add: valid_chain_def)

lemma valid_kinds_step:
  assumes "valid_kinds (k # k' # ks)"
  shows "position k \<le> position k'" and "\<not> (k = k' \<and> single_occurrence k)"
    and "valid_kinds (k' # ks)"
proof -
  from assms show "position k \<le> position k'" by (simp add: valid_kinds_def)
  from assms show "\<not> (k = k' \<and> single_occurrence k)"
    by (auto simp: valid_kinds_def)
  from assms have s: "sorted (map position (k' # ks))" by (simp add: valid_kinds_def)
  from assms have
    "\<forall>x\<in>set (k' # ks). single_occurrence x \<longrightarrow> count_list (k # k' # ks) x \<le> 1"
    by (simp add: valid_kinds_def list_all_iff)
  moreover have "count_list (k' # ks) x \<le> count_list (k # k' # ks) x" for x by simp
  ultimately have
    "\<forall>x\<in>set (k' # ks). single_occurrence x \<longrightarrow> count_list (k' # ks) x \<le> 1"
    using le_trans by blast
  with s show "valid_kinds (k' # ks)" by (simp add: valid_kinds_def list_all_iff)
qed

lemma currentValueStr_perKindRender: "currentValueStr k v = perKindRender k v"
  by (cases k) simp_all

lemma call_Builder:
  "call m v Builder h =
     (Inr (Ref (length h)), h @ [\<lparr>prototype = constructs m, value = v, prevValue = []\<rparr>])"
  by (simp add: new_selector_def)

lemma call_fragment:
  assumes "a < length h" and "override (prototype (h ! a)) m = None"
  shows "call m v (Ref a) h =
     (Inr (Ref (length h)),
      h @ [\<lparr>prototype = constructs m, value = v,
            prevValue = prevValue (h ! a) @ currentValueStr (prototype (h ! a)) (value (h ! a))\<rparr>])"
  using assms by (simp add: new_selector_def)

lemma call_fragment_throws:
  assumes "a < length h" and "override (prototype (h ! a)) m = Some e"
  shows "call m v (Ref a) h = (Inl e, h)"
  using assms by simp

lemma rendering_Cons:
  "rendering ((m, v) # ops) = perKindRender (constructs m) v @ rendering ops"
  by (simp add: rendering_def)

lemma chain_fragment_valid:
  assumes "a < length h" and "valid_kinds (prototype (h ! a) # kinds ops)"
  shows "\<exists>b h'. chain ops (Ref a) h = (Inr (Ref b), h') \<and> b < length h' \<and>
           stringify (Ref b) h' =
             (Inr (prevValue (h ! a) @ currentValueStr (prototype (h ! a)) (value (h ! a))
                   @ rendering ops), h')"
  using assms
proof (induction ops arbitrary: a h)
  case Nil
  then show ?case by (simp add: rendering_def)
next
  case (Cons op ops)
  obtain m v where op: "op = (m, v)" by (cases op)
  let ?p = "prototype (h ! a)"
  let ?s = "prevValue (h ! a) @ currentValueStr ?p (value (h ! a))"
  let ?x = "\<lparr>prototype = constructs m, value = v, prevValue = ?s\<rparr>"
  let ?h1 = "h @ [?x]"
  from Cons.prems(2) op have v: "valid_kinds (?p # constructs m # kinds ops)"
    by (simp add: kinds_def)
  have "override ?p m = None"
    using valid_kinds_step(1,2) [OF v] by (rule override_None)
  with Cons.prems(1) have c: "call m v (Ref a) h = (Inr (Ref (length h)), ?h1)"
    by (rule call_fragment)
  have a1: "length h < length ?h1" by simp
  have x: "?h1 ! length h = ?x" by simp
  have "valid_kinds (prototype (?h1 ! length h) # kinds ops)"
    using valid_kinds_step(3) [OF v] by (simp only: x) simp
  from Cons.IH [OF a1 this] obtain b h' where
    ch: "chain ops (Ref (length h)) ?h1 = (Inr (Ref b), h')" and b: "b < length h'" and
    st: "stringify (Ref b) h' =
           (Inr (prevValue (?h1 ! length h)
                 @ currentValueStr (prototype (?h1 ! length h)) (value (?h1 ! length h))
                 @ rendering ops), h')"
    by blast
  from ch c op have "chain (op # ops) (Ref a) h = (Inr (Ref b), h')" by simp
  moreover from st have "stringify (Ref b) h' = (Inr (?s @ rendering (op # ops)), h')"
    by (simp only: x op rendering_Cons) (simp add: currentValueStr_perKindRender)
  ultimately show ?case using b by auto
qed

lemma chain_Builder_valid:
  assumes "ops \<noteq> []" and "valid_chain ops"
  shows "\<exists>b h'. chain ops Builder h = (Inr (Ref b), h') \<and> b < length h' \<and>
           stringify (Ref b) h' = (Inr (rendering ops), h')"
proof -
  from assms(1) obtain m v ops' where ops: "ops = (m, v) # ops'"
    by (cases ops) auto
  let ?x = "\<lparr>prototype = constructs m, value = v, prevValue = []\<rparr>"
  let ?h1 = "h @ [?x]"
  have c: "call m v Builder h = (Inr (Ref (length h)), ?h1)" by (rule call_Builder)
  have a1: "length h < length ?h1" by simp
  have x: "?h1 ! length h = ?x" by simp
  from assms(2) ops have "valid_kinds (prototype (?h1 ! length h) # kinds ops')"
    by (simp only: x) (simp add: valid_chain_kinds kinds_def)
  from chain_fragment_valid [OF a1 this] obtain b h' where
    ch: "chain ops' (Ref (length h)) ?h1 = (Inr (Ref b), h')" and b: "b < length h'" and
    st: "stringify (Ref b) h' =
           (Inr (prevValue (?h1 ! length h)
                 @ currentValueStr (prototype (?h1 ! length h)) (value (?h1 ! length h))
                 @ rendering ops'), h')"
    by blast
  from ch c ops have "chain ops Builder h = (Inr (Ref b), h')" by simp
  moreover from st have "stringify (Ref b) h' = (Inr (rendering ops), h')"
    by (simp only: x ops rendering_Cons) (simp add: currentValueStr_perKindRender)
  ultimately show ?thesis using b by blast
qed

subsection \<open>Chains that are built respect the order\<close>

lemma override_None_order:
  "override p m = None \<Longrightarrow> position p \<le> position (constructs m)"
  by (cases p; cases m) simp_all

lemma sorted_le_last:
  fixes xs :: "nat list"
  shows "sorted xs \<Longrightarrow> x \<in> set xs \<Longrightarrow> x \<le> last xs"
  by (induction xs) auto

lemma position_inj: "position k = position k' \<Longrightarrow> k = k'"
  by (cases k; cases k') simp_all

lemma chain_fragment_returns:
  assumes "chain ops (Ref a) h = (Inr r, h')" and "a < length h"
  shows "\<exists>b. r = Ref b \<and> b < length h' \<and>
           prototype (h' ! b) = last (prototype (h ! a) # kinds ops) \<and>
           sorted (map position (prototype (h ! a) # kinds ops))"
  using assms
proof (induction ops arbitrary: a h)
  case Nil
  then show ?case by (auto simp: kinds_def)
next
  case (Cons op ops)
  obtain m v where op: "op = (m, v)" by (cases op)
  let ?p = "prototype (h ! a)"
  have none: "override ?p m = None"
  proof (cases "override ?p m")
    case None
    then show ?thesis .
  next
    case (Some e)
    with Cons.prems(2) have "call m v (Ref a) h = (Inl e, h)" by (rule call_fragment_throws)
    with Cons.prems(1) op show ?thesis by simp
  qed
  let ?x = "\<lparr>prototype = constructs m, value = v,
              prevValue = prevValue (h ! a) @ currentValueStr ?p (value (h ! a))\<rparr>"
  let ?h1 = "h @ [?x]"
  from Cons.prems(2) none have c: "call m v (Ref a) h = (Inr (Ref (length h)), ?h1)"
    by (rule call_fragment)
  with Cons.prems(1) op have ch: "chain ops (Ref (length h)) ?h1 = (Inr r, h')" by simp
  have a1: "length h < length ?h1" by simp
  have x: "prototype (?h1 ! length h) = constructs m" by simp
  from Cons.IH [OF ch a1] obtain b where b: "r = Ref b" "b < length h'"
    and l: "prototype (h' ! b) = last (constructs m # kinds ops)"
    and s: "sorted (map position (constructs m # kinds ops))"
    by (auto simp only: x)
  have k: "kinds (op # ops) = constructs m # kinds ops" by (simp add: kinds_def op)
  from l have "prototype (h' ! b) = last (?p # kinds (op # ops))" by (simp only: k) simp
  moreover from s override_None_order [OF none]
  have "sorted (map position (?p # kinds (op # ops)))" by (simp only: k) (auto intro: le_trans)
  ultimately show ?case using b by blast
qed

lemma chain_Builder_returns:
  assumes "chain ops Builder h0 = (Inr r, h)" and "ops \<noteq> []"
  shows "\<exists>b. r = Ref b \<and> b < length h \<and>
           prototype (h ! b) = last (kinds ops) \<and> sorted (map position (kinds ops))"
proof -
  from assms(2) obtain m v ops' where ops: "ops = (m, v) # ops'" by (cases ops) auto
  let ?x = "\<lparr>prototype = constructs m, value = v, prevValue = []\<rparr>"
  let ?h1 = "h0 @ [?x]"
  have c: "call m v Builder h0 = (Inr (Ref (length h0)), ?h1)" by (rule call_Builder)
  with assms(1) ops have ch: "chain ops' (Ref (length h0)) ?h1 = (Inr r, h)" by simp
  have a1: "length h0 < length ?h1" by simp
  have x: "prototype (?h1 ! length h0) = constructs m" by simp
  have k: "kinds ops = constructs m # kinds ops'" by (simp add: kinds_def ops)
  from chain_fragment_returns [OF ch a1] show ?thesis by (simp only: x k)
qed

lemma kinds_nonempty: "k \<in> set (kinds ops) \<Longrightarrow> ops \<noteq> []"
  by (auto simp: kinds_def)

lemma position_le_last:
  assumes "sorted (map position ks)" and "k \<in> set ks"
  shows "position k \<le> position (last ks)"
proof -
  from assms(2) have ne: "ks \<noteq> []" by auto
  from assms(2) have "position k \<in> set (map position ks)" by simp
  from sorted_le_last [OF assms(1) this] ne show ?thesis by (simp add: last_map)
qed

subsection \<open>Repeated parts, thrown errors, and what a call returns\<close>

lemma override_repeatable:
  "\<not> single_occurrence (constructs m) \<Longrightarrow> override (constructs m) m = None"
  by (cases m) simp_all

lemma last_kind_eq:
  assumes "sorted (map position ks)" and "k \<in> set ks"
    and "\<forall>k'\<in>set ks. position k' \<le> position k"
  shows "last ks = k"
proof -
  from assms(2) have ne: "ks \<noteq> []" by auto
  then have "last ks \<in> set ks" by simp
  with assms(3) have "position (last ks) \<le> position k" by blast
  with position_le_last [OF assms(1,2)] show ?thesis by (simp add: position_inj)
qed

lemma repeat_fragment:
  assumes "a < length h" and "prototype (h ! a) = constructs m"
    and "\<not> single_occurrence (constructs m)"
  shows "\<exists>b h'. chain (map (Pair m) vs) (Ref a) h = (Inr (Ref b), h') \<and> b < length h' \<and>
           prototype (h' ! b) = constructs m"
  using assms(1,2)
proof (induction vs arbitrary: a h)
  case Nil
  then show ?case by simp
next
  case (Cons v vs)
  let ?x = "\<lparr>prototype = constructs m, value = v,
              prevValue = prevValue (h ! a) @ currentValueStr (prototype (h ! a)) (value (h ! a))\<rparr>"
  let ?h1 = "h @ [?x]"
  from Cons.prems(2) assms(3) have "override (prototype (h ! a)) m = None"
    by (simp add: override_repeatable)
  with Cons.prems(1) have c: "call m v (Ref a) h = (Inr (Ref (length h)), ?h1)"
    by (rule call_fragment)
  have a1: "length h < length ?h1" by simp
  have x: "prototype (?h1 ! length h) = constructs m" by simp
  from Cons.IH [OF a1 x] c show ?case by simp
qed

lemma override_range:
  "override p m = Some e \<Longrightarrow> e = selectorsOrderError \<or> e = multipleSelectorsError"
  by (cases p; cases m) simp_all

lemma call_error:
  assumes "call m v r h = (Inl e, h')"
  shows "e = selectorsOrderError \<or> e = multipleSelectorsError \<or> e = NotAFunction \<or> e = NoSuchObject"
proof (cases r)
  case Builder
  with assms show ?thesis by (simp add: call_Builder del: call.simps)
next
  case (Ref a)
  show ?thesis
  proof (cases "a < length h")
    case True
    show ?thesis
    proof (cases "override (prototype (h ! a)) m")
      case None
      from call_fragment [OF True None, of v] assms Ref show ?thesis by (simp del: call.simps)
    next
      case (Some e')
      from call_fragment_throws [OF True Some, of v] assms Ref have "e = e'" by (simp del: call.simps)
      with override_range [OF Some] show ?thesis by blast
    qed
  next
    case False
    with assms Ref show ?thesis by simp
  qed
next
  case (Combined s1 c s2)
  with assms show ?thesis by simp
qed

lemma chain_error:
  assumes "chain ops r h = (Inl e, h')"
  shows "e = selectorsOrderError \<or> e = multipleSelectorsError \<or> e = NotAFunction \<or> e = NoSuchObject"
  using assms
proof (induction ops arbitrary: r h)
  case Nil
  then show ?case by simp
next
  case (Cons op ops)
  obtain m v where op: "op = (m, v)" by (cases op)
  obtain res1 h1 where c: "call m v r h = (res1, h1)" by (cases "call m v r h")
  show ?case
  proof (cases res1)
    case (Inl e1)
    with Cons.prems op c have "e = e1" by simp
    with c Inl call_error show ?thesis by blast
  next
    case (Inr r1)
    with Cons.prems op c have "chain ops r1 h1 = (Inl e, h')" by simp
    then show ?thesis by (rule Cons.IH)
  qed
qed

lemma call_returns:
  assumes "call m v r h = (Inr r', h')"
  shows "\<exists>prev. r' = Ref (length h) \<and>
           h' = h @ [\<lparr>prototype = constructs m, value = v, prevValue = prev\<rparr>] \<and>
           (r = Builder \<and> prev = [] \<or> r \<noteq> Builder \<and> stringify r h = (Inr prev, h))"
proof (cases r)
  case Builder
  with assms show ?thesis by (auto simp add: call_Builder simp del: call.simps)
next
  case (Ref a)
  show ?thesis
  proof (cases "a < length h")
    case True
    show ?thesis
    proof (cases "override (prototype (h ! a)) m")
      case None
      from call_fragment [OF True None, of v] assms Ref True show ?thesis
        by (auto simp del: call.simps)
    next
      case (Some e)
      from call_fragment_throws [OF True Some, of v] assms Ref show ?thesis
        by (simp del: call.simps)
    qed
  next
    case False
    with assms Ref show ?thesis by simp
  qed
next
  case (Combined s1 c s2)
  with assms show ?thesis by simp
qed

lemma call_in_store:
  assumes "call m v r h = (Inr r', h')"
  shows "in_store h' r'"
  using call_returns [OF assms] by auto

lemma chain_in_store:
  assumes "chain ops r h = (Inr r', h')" and "in_store h r"
  shows "in_store h' r'"
  using assms
proof (induction ops arbitrary: r h)
  case Nil
  then show ?case by simp
next
  case (Cons op ops)
  obtain m v where op: "op = (m, v)" by (cases op)
  obtain res1 h1 where c: "call m v r h = (res1, h1)" by (cases "call m v r h")
  show ?case
  proof (cases res1)
    case (Inl e)
    with Cons.prems(1) op c show ?thesis by simp
  next
    case (Inr r1)
    with Cons.prems(1) op c have ch: "chain ops r1 h1 = (Inr r', h')" by simp
    from c Inr have "in_store h1 r1" by (simp add: call_in_store)
    with ch show ?thesis by (rule Cons.IH)
  qed
qed

lemma call_throws_payload:
  assumes "call m v r h = (Inl e, h')"
  shows "call m v' r h = (Inl e, h')"
proof (cases r)
  case Builder
  with assms show ?thesis by (simp add: call_Builder del: call.simps)
next
  case (Ref a)
  show ?thesis
  proof (cases "a < length h")
    case True
    show ?thesis
    proof (cases "override (prototype (h ! a)) m")
      case None
      from call_fragment [OF True None, of v] assms Ref show ?thesis by (simp del: call.simps)
    next
      case (Some e')
      from call_fragment_throws [OF True Some, of v] call_fragment_throws [OF True Some, of v']
        assms Ref show ?thesis by (simp del: call.simps)
    qed
  next
    case False
    with assms Ref show ?thesis by simp
  qed
next
  case (Combined s1 c s2)
  with assms show ?thesis by simp
qed

section \<open>The claims\<close>

text \<open>
  C1. A chain of part operations from the builder whose kinds are non-decreasing in the
  order Element < Id < Class < Attribute < PseudoClass < PseudoElement and in which
  Element, Id and PseudoElement occur at most once is built without an error, and
  \<open>stringify\<close> of its result is the concatenation, with nothing in between, of the
  per-kind renderings of its parts. A chain has at least one part: with none, there is
  no result of a part operation, only the builder itself.
\<close>

theorem stringify_valid_chain:
  assumes "ops \<noteq> []" and "valid_chain ops"
  shows "\<exists>r h'. chain ops Builder h = (Inr r, h') \<and> stringify r h' = (Inr (rendering ops), h')"
  using chain_Builder_valid [OF assms, of h] by blast

text \<open>
  The chain \<open>element("div").id("main").class("container")\<close> renders as
  \<open>div#main.container\<close>.
\<close>

theorem stringify_valid_chain_witness:
  "[(element_m, ''div''), (id_m, ''main''), (class_m, ''container'')] \<noteq> [] \<and>
   valid_chain [(element_m, ''div''), (id_m, ''main''), (class_m, ''container'')] \<and>
   (\<exists>r h'. chain [(element_m, ''div''), (id_m, ''main''), (class_m, ''container'')] Builder []
              = (Inr r, h') \<and>
            stringify r h' = (Inr ''div#main.container'', h'))"
proof -
  let ?ops = "[(element_m, ''div''), (id_m, ''main''), (class_m, ''container'')]"
  have ne: "?ops \<noteq> []" by simp
  have v: "valid_chain ?ops" by (simp add: valid_chain_def valid_kinds_def kinds_def)
  have r: "rendering ?ops = ''div#main.container''" by (simp add: rendering_def)
  from stringify_valid_chain [OF ne v, of "[]"] ne v show ?thesis by (simp only: r) simp
qed

text \<open>
  C2. On the result of a chain from the builder, a part operation whose kind stands
  before some kind already in the chain throws what \<open>selectorsOrderError\<close> throws, at
  that call: the call itself returns the error, and the store is as it was.
\<close>

theorem order_violation:
  assumes "chain ops Builder h0 = (Inr r, h)" and "k \<in> set (kinds ops)"
    and "position (constructs m) < position k"
  shows "call m v r h = (Inl selectorsOrderError, h)"
proof -
  from chain_Builder_returns [OF assms(1) kinds_nonempty [OF assms(2)]]
  obtain b where b: "r = Ref b" "b < length h" and l: "prototype (h ! b) = last (kinds ops)"
    and s: "sorted (map position (kinds ops))" by blast
  from position_le_last [OF s assms(2)] assms(3) l
  have "position (constructs m) < position (prototype (h ! b))" by simp
  then have "override (prototype (h ! b)) m = Some selectorsOrderError" by (rule override_order)
  with b show ?thesis by simp
qed

text \<open>
  \<open>id(...)\<close> after \<open>class(...)\<close>.
\<close>

theorem order_violation_witness:
  "chain [(class_m, ''container'')] Builder []
     = (Inr (Ref 0), [\<lparr>prototype = ClassSelector, value = ''container'', prevValue = []\<rparr>]) \<and>
   ClassSelector \<in> set (kinds [(class_m, ''container'')]) \<and>
   position (constructs id_m) < position ClassSelector \<and>
   call id_m ''main'' (Ref 0) [\<lparr>prototype = ClassSelector, value = ''container'', prevValue = []\<rparr>]
     = (Inl (OrderViolation
          ''/Selector parts should be arranged in the following order: element, id, class, attribute, pseudo-class, pseudo-element/''),
        [\<lparr>prototype = ClassSelector, value = ''container'', prevValue = []\<rparr>])"
proof -
  let ?h = "[\<lparr>prototype = ClassSelector, value = ''container'', prevValue = []\<rparr>]"
  have c: "chain [(class_m, ''container'')] Builder [] = (Inr (Ref 0), ?h)"
    by (simp add: new_selector_def)
  have k: "ClassSelector \<in> set (kinds [(class_m, ''container'')])" by (simp add: kinds_def)
  have p: "position (constructs id_m) < position ClassSelector" by simp
  from order_violation [OF c k p, of "''main''"] c k p show ?thesis
    by (simp only: selectorsOrderError_def)
qed

text \<open>
  C3. On the result of a chain from the builder in which no kind stands after the
  requested one (so that no order violation applies): when the requested kind is Element,
  Id or PseudoElement and already occurs in the chain, the call throws what
  \<open>multipleSelectorsError\<close> throws; when it is Class, Attribute or PseudoClass, it can be
  added any number of times in a row, whatever the payloads, and nothing is thrown.
\<close>

theorem cardinality_violation:
  assumes "chain ops Builder h0 = (Inr r, h)"
    and "list_all (\<lambda>k. position k \<le> position (constructs m)) (kinds ops)"
  shows "(single_occurrence (constructs m) \<and> constructs m \<in> set (kinds ops)
            \<longrightarrow> call m v r h = (Inl multipleSelectorsError, h)) \<and>
         (\<not> single_occurrence (constructs m)
            \<longrightarrow> (\<exists>r' h'. chain (map (Pair m) vs) r h = (Inr r', h')))"
proof (rule conjI)
  from assms(2) have le: "\<forall>k\<in>set (kinds ops). position k \<le> position (constructs m)"
    by (simp add: list_all_iff)
  show "single_occurrence (constructs m) \<and> constructs m \<in> set (kinds ops)
           \<longrightarrow> call m v r h = (Inl multipleSelectorsError, h)"
  proof
    assume a: "single_occurrence (constructs m) \<and> constructs m \<in> set (kinds ops)"
    then have k: "constructs m \<in> set (kinds ops)" by simp
    from chain_Builder_returns [OF assms(1) kinds_nonempty [OF k]]
    obtain b where b: "r = Ref b" "b < length h" and l: "prototype (h ! b) = last (kinds ops)"
      and s: "sorted (map position (kinds ops))" by blast
    from last_kind_eq [OF s k le] l have "prototype (h ! b) = constructs m" by simp
    with a have "override (prototype (h ! b)) m = Some multipleSelectorsError"
      by (simp add: override_multiple)
    with b show "call m v r h = (Inl multipleSelectorsError, h)" by simp
  qed
next
  from assms(2) have le: "\<forall>k\<in>set (kinds ops). position k \<le> position (constructs m)"
    by (simp add: list_all_iff)
  show "\<not> single_occurrence (constructs m)
           \<longrightarrow> (\<exists>r' h'. chain (map (Pair m) vs) r h = (Inr r', h'))"
  proof
    assume n: "\<not> single_occurrence (constructs m)"
    show "\<exists>r' h'. chain (map (Pair m) vs) r h = (Inr r', h')"
    proof (cases vs)
      case Nil
      then show ?thesis by simp
    next
      case (Cons v' vs')
      have "\<exists>b h1. call m v' r h = (Inr (Ref b), h1) \<and> b < length h1
               \<and> prototype (h1 ! b) = constructs m"
      proof (cases "ops = []")
        case True
        with assms(1) have "r = Builder" by simp
        then show ?thesis by (simp del: call.simps add: call_Builder)
      next
        case False
        from chain_Builder_returns [OF assms(1) False]
        obtain b where b: "r = Ref b" "b < length h" and l: "prototype (h ! b) = last (kinds ops)"
          and s: "sorted (map position (kinds ops))" by blast
        from False have "kinds ops \<noteq> []" by (simp add: kinds_def)
        then have "last (kinds ops) \<in> set (kinds ops)" by (rule last_in_set)
        with le l have le': "position (prototype (h ! b)) \<le> position (constructs m)" by simp
        have "\<not> (prototype (h ! b) = constructs m \<and> single_occurrence (prototype (h ! b)))"
          using n by auto
        with le' have "override (prototype (h ! b)) m = None" by (rule override_None)
        with b(2) have "call m v' (Ref b) h =
          (Inr (Ref (length h)),
           h @ [\<lparr>prototype = constructs m, value = v',
             prevValue = prevValue (h ! b) @ currentValueStr (prototype (h ! b)) (value (h ! b))\<rparr>])"
          by (rule call_fragment)
        with b(1) show ?thesis by (simp del: call.simps)
      qed
      then obtain b h1 where c: "call m v' r h = (Inr (Ref b), h1)" and b: "b < length h1"
        and p: "prototype (h1 ! b) = constructs m" by blast
      from repeat_fragment [OF b p n, of vs'] c Cons show ?thesis by auto
    qed
  qed
qed

text \<open>
  \<open>id(...)\<close> twice throws; three classes after an id are built.
\<close>

theorem cardinality_violation_witness:
  "chain [(id_m, ''main'')] Builder []
     = (Inr (Ref 0), [\<lparr>prototype = IdSelector, value = ''main'', prevValue = []\<rparr>]) \<and>
   call id_m ''other'' (Ref 0) [\<lparr>prototype = IdSelector, value = ''main'', prevValue = []\<rparr>]
     = (Inl (CardinalityViolation
          ''Element, id and pseudo-element should not occur more then one time inside the selector''),
        [\<lparr>prototype = IdSelector, value = ''main'', prevValue = []\<rparr>]) \<and>
   (\<exists>r' h'. chain (map (Pair class_m) [''a'', ''b'', ''c'']) (Ref 0)
               [\<lparr>prototype = IdSelector, value = ''main'', prevValue = []\<rparr>] = (Inr r', h'))"
proof -
  let ?h = "[\<lparr>prototype = IdSelector, value = ''main'', prevValue = []\<rparr>]"
  have c: "chain [(id_m, ''main'')] Builder [] = (Inr (Ref 0), ?h)"
    by (simp add: new_selector_def)
  have a1: "list_all (\<lambda>k. position k \<le> position (constructs id_m)) (kinds [(id_m, ''main'')])"
    by (simp add: kinds_def)
  have a2: "list_all (\<lambda>k. position k \<le> position (constructs class_m)) (kinds [(id_m, ''main'')])"
    by (simp add: kinds_def)
  have s: "single_occurrence (constructs id_m) \<and> constructs id_m \<in> set (kinds [(id_m, ''main'')])"
    by (simp add: kinds_def)
  have n: "\<not> single_occurrence (constructs class_m)" by simp
  from cardinality_violation [OF c a1, of "''other''"] s
  have "call id_m ''other'' (Ref 0) ?h = (Inl multipleSelectorsError, ?h)" by blast
  moreover from cardinality_violation [OF c a2, of _ "[''a'', ''b'', ''c'']"] n
  have "\<exists>r' h'. chain (map (Pair class_m) [''a'', ''b'', ''c'']) (Ref 0) ?h = (Inr r', h')"
    by blast
  ultimately show ?thesis using c by (simp only: multipleSelectorsError_def)
qed

text \<open>
  C4. For selectors \<open>A\<close> and \<open>B\<close> in the store (results of chains or of \<open>combine\<close>) and
  any string \<open>c\<close>, \<open>stringify\<close> of \<open>combine(A, c, B)\<close> is \<open>stringify\<close> of \<open>A\<close>, a space,
  \<open>c\<close>, a space, and \<open>stringify\<close> of \<open>B\<close>. The documented example nested three deep, its
  four chains built one after the other from the empty store, renders as documented,
  with the three spaces that the combinator \<open>' '\<close> makes between its two sides.
\<close>

theorem stringify_combine:
  "(in_store h A \<and> in_store h B \<longrightarrow>
      (\<exists>a b s. stringify A h = (Inr a, h) \<and> stringify B h = (Inr b, h) \<and>
         combine A c B h = (Inr s, h) \<and>
         stringify s h = (Inr (a @ '' '' @ c @ '' '' @ b), h))) \<and>
   (\<exists>s1 s2 s3 s4 h1 h2 h3 h4 c1 c2 c3.
      chain [(element_m, ''div''), (id_m, ''main''), (class_m, ''container''),
             (class_m, ''draggable'')] Builder [] = (Inr s1, h1) \<and>
      chain [(element_m, ''table''), (id_m, ''data'')] Builder h1 = (Inr s2, h2) \<and>
      chain [(element_m, ''tr''), (pseudoClass_m, ''nth-of-type(even)'')] Builder h2 = (Inr s3, h3) \<and>
      chain [(element_m, ''td''), (pseudoClass_m, ''nth-of-type(even)'')] Builder h3 = (Inr s4, h4) \<and>
      combine s3 '' '' s4 h4 = (Inr c3, h4) \<and>
      combine s2 ''~'' c3 h4 = (Inr c2, h4) \<and>
      combine s1 ''+'' c2 h4 = (Inr c1, h4) \<and>
      stringify c1 h4 =
        (Inr ''div#main.container.draggable + table#data ~ tr:nth-of-type(even)   td:nth-of-type(even)'',
         h4))"
proof (intro conjI impI)
  assume "in_store h A \<and> in_store h B"
  then obtain a b where "stringify A h = (Inr a, h)" "stringify B h = (Inr b, h)"
    using stringify_in_store by blast
  then show "\<exists>a b s. stringify A h = (Inr a, h) \<and> stringify B h = (Inr b, h) \<and>
         combine A c B h = (Inr s, h) \<and>
         stringify s h = (Inr (a @ '' '' @ c @ '' '' @ b), h)"
    by (simp add: combine_def)
next
  show "\<exists>s1 s2 s3 s4 h1 h2 h3 h4 c1 c2 c3.
      chain [(element_m, ''div''), (id_m, ''main''), (class_m, ''container''),
             (class_m, ''draggable'')] Builder [] = (Inr s1, h1) \<and>
      chain [(element_m, ''table''), (id_m, ''data'')] Builder h1 = (Inr s2, h2) \<and>
      chain [(element_m, ''tr''), (pseudoClass_m, ''nth-of-type(even)'')] Builder h2 = (Inr s3, h3) \<and>
      chain [(element_m, ''td''), (pseudoClass_m, ''nth-of-type(even)'')] Builder h3 = (Inr s4, h4) \<and>
      combine s3 '' '' s4 h4 = (Inr c3, h4) \<and>
      combine s2 ''~'' c3 h4 = (Inr c2, h4) \<and>
      combine s1 ''+'' c2 h4 = (Inr c1, h4) \<and>
      stringify c1 h4 =
        (Inr ''div#main.container.draggable + table#data ~ tr:nth-of-type(even)   td:nth-of-type(even)'',
         h4)"
    by (simp add: new_selector_def combine_def)
qed

text \<open>
  \<open>combine(element("div"), ">", element("p"))\<close> renders as \<open>div > p\<close>.
\<close>

theorem stringify_combine_witness:
  "in_store [\<lparr>prototype = ElementSelector, value = ''div'', prevValue = []\<rparr>,
             \<lparr>prototype = ElementSelector, value = ''p'', prevValue = []\<rparr>] (Ref 0) \<and>
   in_store [\<lparr>prototype = ElementSelector, value = ''div'', prevValue = []\<rparr>,
             \<lparr>prototype = ElementSelector, value = ''p'', prevValue = []\<rparr>] (Ref 1) \<and>
   (\<exists>s. combine (Ref 0) ''>'' (Ref 1)
           [\<lparr>prototype = ElementSelector, value = ''div'', prevValue = []\<rparr>,
            \<lparr>prototype = ElementSelector, value = ''p'', prevValue = []\<rparr>]
         = (Inr s, [\<lparr>prototype = ElementSelector, value = ''div'', prevValue = []\<rparr>,
                    \<lparr>prototype = ElementSelector, value = ''p'', prevValue = []\<rparr>]) \<and>
        stringify s [\<lparr>prototype = ElementSelector, value = ''div'', prevValue = []\<rparr>,
                     \<lparr>prototype = ElementSelector, value = ''p'', prevValue = []\<rparr>]
         = (Inr ''div > p'',
            [\<lparr>prototype = ElementSelector, value = ''div'', prevValue = []\<rparr>,
             \<lparr>prototype = ElementSelector, value = ''p'', prevValue = []\<rparr>]))"
proof -
  let ?h = "[\<lparr>prototype = ElementSelector, value = ''div'', prevValue = []\<rparr>,
             \<lparr>prototype = ElementSelector, value = ''p'', prevValue = []\<rparr>]"
  have i: "in_store ?h (Ref 0) \<and> in_store ?h (Ref 1)" by simp
  from stringify_combine [of ?h "Ref 0" "Ref 1" "''>''"] i
  have "\<exists>a b s. stringify (Ref 0) ?h = (Inr a, ?h) \<and> stringify (Ref 1) ?h = (Inr b, ?h) \<and>
         combine (Ref 0) ''>'' (Ref 1) ?h = (Inr s, ?h) \<and>
         stringify s ?h = (Inr (a @ '' '' @ ''>'' @ '' '' @ b), ?h)"
    by blast
  then obtain a b s where "stringify (Ref 0) ?h = (Inr a, ?h)" "stringify (Ref 1) ?h = (Inr b, ?h)"
    and s: "combine (Ref 0) ''>'' (Ref 1) ?h = (Inr s, ?h)"
      "stringify s ?h = (Inr (a @ '' '' @ ''>'' @ '' '' @ b), ?h)" by blast
  then have "a = ''div''" "b = ''p''" by simp_all
  with s have "stringify s ?h = (Inr ''div > p'', ?h)" by simp
  with s(1) i show ?thesis by blast
qed

text \<open>
  C5, as amended. On the result of a chain from the builder that contains an Element
  part, \<open>element(...)\<close> throws: what \<open>multipleSelectorsError\<close> throws when no part of
  another kind was added to the chain, and what \<open>selectorsOrderError\<close> throws when one
  was, since every other prototype assigns \<open>selectorsOrderError\<close> to \<open>element\<close>.
\<close>

theorem second_element:
  assumes "chain ops Builder h0 = (Inr r, h)" and "ElementSelector \<in> set (kinds ops)"
  shows "call element_m v r h =
           (Inl (if list_all (\<lambda>k. k = ElementSelector) (kinds ops)
                 then multipleSelectorsError else selectorsOrderError), h)"
proof -
  from chain_Builder_returns [OF assms(1) kinds_nonempty [OF assms(2)]]
  obtain b where b: "r = Ref b" "b < length h" and l: "prototype (h ! b) = last (kinds ops)"
    and s: "sorted (map position (kinds ops))" by blast
  from assms(2) have ne: "kinds ops \<noteq> []" by auto
  show ?thesis
  proof (cases "list_all (\<lambda>k. k = ElementSelector) (kinds ops)")
    case True
    with last_in_set [OF ne] have "last (kinds ops) = ElementSelector" by (simp add: list_all_iff)
    with l have "override (prototype (h ! b)) element_m = Some multipleSelectorsError" by simp
    with b True show ?thesis by simp
  next
    case False
    then obtain k where k: "k \<in> set (kinds ops)" "k \<noteq> ElementSelector"
      by (auto simp: list_all_iff)
    from k(2) have "0 < position k" by (cases k) simp_all
    with position_le_last [OF s k(1)] l
    have "position (constructs element_m) < position (prototype (h ! b))" by simp
    then have "override (prototype (h ! b)) element_m = Some selectorsOrderError"
      by (rule override_order)
    with b False show ?thesis by simp
  qed
qed

text \<open>
  \<open>element("div").element("span")\<close>.
\<close>

theorem second_element_witness:
  "chain [(element_m, ''div'')] Builder []
     = (Inr (Ref 0), [\<lparr>prototype = ElementSelector, value = ''div'', prevValue = []\<rparr>]) \<and>
   ElementSelector \<in> set (kinds [(element_m, ''div'')]) \<and>
   call element_m ''span'' (Ref 0) [\<lparr>prototype = ElementSelector, value = ''div'', prevValue = []\<rparr>]
     = (Inl (CardinalityViolation
          ''Element, id and pseudo-element should not occur more then one time inside the selector''),
        [\<lparr>prototype = ElementSelector, value = ''div'', prevValue = []\<rparr>])"
proof -
  let ?h = "[\<lparr>prototype = ElementSelector, value = ''div'', prevValue = []\<rparr>]"
  have c: "chain [(element_m, ''div'')] Builder [] = (Inr (Ref 0), ?h)"
    by (simp add: new_selector_def)
  have k: "ElementSelector \<in> set (kinds [(element_m, ''div'')])" by (simp add: kinds_def)
  have l: "list_all (\<lambda>k. k = ElementSelector) (kinds [(element_m, ''div'')])"
    by (simp add: kinds_def)
  from second_element [OF c k, of "''span''"] l
  have "call element_m ''span'' (Ref 0) ?h = (Inl multipleSelectorsError, ?h)" by (simp only: if_True)
  with c k show ?thesis by (simp only: multipleSelectorsError_def)
qed

text \<open>
  C5 as stated fails: in \<open>element("div").id("main").element("span")\<close> the second
  \<open>element\<close> is called on an object of \<open>IdSelector\<close> and throws the order error, not
  the cardinality error.
\<close>

theorem second_element_counterexample:
  "chain [(element_m, ''div''), (id_m, ''main''), (element_m, ''span'')] Builder [] =
     (Inl (OrderViolation
        ''/Selector parts should be arranged in the following order: element, id, class, attribute, pseudo-class, pseudo-element/''),
      [\<lparr>prototype = ElementSelector, value = ''div'', prevValue = []\<rparr>,
       \<lparr>prototype = IdSelector, value = ''main'', prevValue = ''div''\<rparr>])"
  by (simp add: new_selector_def selectorsOrderError_def)

text \<open>
  C6. Whatever the chain, the receiver and the payloads, an error thrown by
  \<open>selectorsOrderError\<close> carries one fixed message, which lists the order element, id,
  class, attribute, pseudo-class, pseudo-element, and an error thrown by
  \<open>multipleSelectorsError\<close> carries one fixed message, that element, id and
  pseudo-element should not occur more than one time inside the selector.
\<close>

theorem error_messages:
  "(chain ops r h = (Inl (OrderViolation msg), h') \<longrightarrow>
      msg = ''/Selector parts should be arranged in the following order: element, id, class, attribute, pseudo-class, pseudo-element/'' \<and>
      (\<exists>pre post. msg = pre @ ''element, id, class, attribute, pseudo-class, pseudo-element'' @ post)) \<and>
   (chain ops r h = (Inl (CardinalityViolation msg), h') \<longrightarrow>
      msg = ''Element, id and pseudo-element should not occur more then one time inside the selector'')"
proof (intro conjI impI)
  assume a: "chain ops r h = (Inl (OrderViolation msg), h')"
  from chain_error [OF a]
  show m: "msg = ''/Selector parts should be arranged in the following order: element, id, class, attribute, pseudo-class, pseudo-element/''"
    by (simp add: selectorsOrderError_def multipleSelectorsError_def)
  have "msg = ''/Selector parts should be arranged in the following order: '' @
    ''element, id, class, attribute, pseudo-class, pseudo-element'' @ ''/''"
    by (simp only: m) simp
  then show "\<exists>pre post. msg = pre @ ''element, id, class, attribute, pseudo-class, pseudo-element'' @ post"
    by blast
next
  assume a: "chain ops r h = (Inl (CardinalityViolation msg), h')"
  from chain_error [OF a]
  show "msg = ''Element, id and pseudo-element should not occur more then one time inside the selector''"
    by (simp add: selectorsOrderError_def multipleSelectorsError_def)
qed

text \<open>
  An attribute after a pseudo-element, and a second pseudo-element.
\<close>

theorem error_messages_witness:
  "chain [(pseudoElement_m, ''after''), (attr_m, ''href'')] Builder []
     = (Inl (OrderViolation
          ''/Selector parts should be arranged in the following order: element, id, class, attribute, pseudo-class, pseudo-element/''),
        [\<lparr>prototype = PseudoElementSelector, value = ''after'', prevValue = []\<rparr>]) \<and>
   chain [(pseudoElement_m, ''after''), (pseudoElement_m, ''before'')] Builder []
     = (Inl (CardinalityViolation
          ''Element, id and pseudo-element should not occur more then one time inside the selector''),
        [\<lparr>prototype = PseudoElementSelector, value = ''after'', prevValue = []\<rparr>])"
proof -
  let ?h = "[\<lparr>prototype = PseudoElementSelector, value = ''after'', prevValue = []\<rparr>]"
  have "chain [(pseudoElement_m, ''after''), (attr_m, ''href'')] Builder []
          = (Inl selectorsOrderError, ?h)" by (simp add: new_selector_def)
  then obtain msg where o: "selectorsOrderError = OrderViolation msg" and
    a: "chain [(pseudoElement_m, ''after''), (attr_m, ''href'')] Builder []
          = (Inl (OrderViolation msg), ?h)"
    by (simp add: selectorsOrderError_def)
  have "chain [(pseudoElement_m, ''after''), (pseudoElement_m, ''before'')] Builder []
          = (Inl multipleSelectorsError, ?h)" by (simp add: new_selector_def)
  then obtain msg' where
    b: "chain [(pseudoElement_m, ''after''), (pseudoElement_m, ''before'')] Builder []
          = (Inl (CardinalityViolation msg'), ?h)"
    by (simp add: multipleSelectorsError_def)
  from error_messages [of "[(pseudoElement_m, ''after''), (attr_m, ''href'')]" Builder "[]" msg ?h] a
  have "msg = ''/Selector parts should be arranged in the following order: element, id, class, attribute, pseudo-class, pseudo-element/''"
    by blast
  moreover
  from error_messages [of "[(pseudoElement_m, ''after''), (pseudoElement_m, ''before'')]" Builder "[]" msg' ?h] b
  have "msg' = ''Element, id and pseudo-element should not occur more then one time inside the selector''"
    by blast
  ultimately show ?thesis using a b by (simp only:)
qed

text \<open>
  C7. For selectors in the store, \<open>stringify\<close> returns a string and throws nothing;
  \<open>combine\<close> returns a selector for every string given as combinator, in the set of
  the four CSS combinators or not, and throws nothing; and the string given stands
  verbatim in what \<open>stringify\<close> of the combined selector returns.
\<close>

theorem rendering_never_throws:
  assumes "in_store h A" and "in_store h B"
  shows "(\<exists>a. stringify A h = (Inr a, h)) \<and>
         (\<exists>s. combine A c B h = (Inr s, h) \<and> in_store h s \<and>
              (\<exists>pre post. stringify s h = (Inr (pre @ c @ post), h)))"
proof -
  from assms obtain a b where a: "stringify A h = (Inr a, h)" and b: "stringify B h = (Inr b, h)"
    using stringify_in_store by blast
  have "combine A c B h = (Inr (Combined A c B), h)" by (simp add: combine_def)
  moreover from assms have "in_store h (Combined A c B)" by simp
  moreover from a b have "stringify (Combined A c B) h = (Inr ((a @ '' '') @ c @ ('' '' @ b)), h)"
    by simp
  ultimately show ?thesis using a by blast
qed

text \<open>
  A combinator that is none of the four, with a selector that was itself combined.
\<close>

theorem rendering_never_throws_witness:
  "in_store [\<lparr>prototype = ElementSelector, value = ''a'', prevValue = []\<rparr>] (Ref 0) \<and>
   in_store [\<lparr>prototype = ElementSelector, value = ''a'', prevValue = []\<rparr>] (Combined (Ref 0) ''>'' Builder) \<and>
   (\<exists>a. stringify (Ref 0) [\<lparr>prototype = ElementSelector, value = ''a'', prevValue = []\<rparr>]
          = (Inr a, [\<lparr>prototype = ElementSelector, value = ''a'', prevValue = []\<rparr>])) \<and>
   (\<exists>s. combine (Ref 0) ''!! not a combinator'' (Combined (Ref 0) ''>'' Builder)
            [\<lparr>prototype = ElementSelector, value = ''a'', prevValue = []\<rparr>]
          = (Inr s, [\<lparr>prototype = ElementSelector, value = ''a'', prevValue = []\<rparr>]) \<and>
        (\<exists>pre post. stringify s [\<lparr>prototype = ElementSelector, value = ''a'', prevValue = []\<rparr>]
          = (Inr (pre @ ''!! not a combinator'' @ post),
             [\<lparr>prototype = ElementSelector, value = ''a'', prevValue = []\<rparr>])))"
proof -
  let ?h = "[\<lparr>prototype = ElementSelector, value = ''a'', prevValue = []\<rparr>]"
  have a: "in_store ?h (Ref 0)" by simp
  have b: "in_store ?h (Combined (Ref 0) ''>'' Builder)" by simp
  from rendering_never_throws [OF a b, of "''!! not a combinator''"] a b show ?thesis by blast
qed

text \<open>
  C8. \<open>stringify\<close> leaves the store as it was, so that no selector is changed by it,
  and a second call returns the same as the first.
\<close>

theorem stringify_idempotent:
  "snd (stringify s h) = h \<and> stringify s (snd (stringify s h)) = stringify s h"
  by (simp add: stringify_store)

text \<open>
  Rendering \<open>combine(id("x"), "+", id("x"))\<close> a second time.
\<close>

theorem stringify_idempotent_witness:
  "stringify (Combined (Ref 0) ''+'' (Ref 0))
      (snd (stringify (Combined (Ref 0) ''+'' (Ref 0))
         [\<lparr>prototype = IdSelector, value = ''x'', prevValue = []\<rparr>]))
     = (Inr ''#x + #x'', [\<lparr>prototype = IdSelector, value = ''x'', prevValue = []\<rparr>])"
proof -
  let ?h = "[\<lparr>prototype = IdSelector, value = ''x'', prevValue = []\<rparr>]"
  let ?s = "Combined (Ref 0) ''+'' (Ref 0)"
  have "stringify ?s ?h = (Inr ''#x + #x'', ?h)" by simp
  with stringify_idempotent [of ?s ?h] show ?thesis by (simp only:)
qed

text \<open>
  C9. Let two chains \<open>c1\<close> and \<open>c2\<close> be built from a shared prefix \<open>p\<close>. Extending \<open>c2\<close>
  with further part operations, whether they succeed or throw, changes neither what
  \<open>stringify\<close> returns on \<open>c1\<close> nor what it returns on \<open>p\<close>, and every object that was
  in the store before is in it unchanged afterwards: an operation only adds objects.
\<close>

theorem shared_prefix_independent:
  assumes "in_store h p" and "chain ops1 p h = (Inr c1, h1)"
    and "chain ops2 p h1 = (Inr c2, h2)" and "chain ops3 c2 h2 = (res, h3)"
  shows "fst (stringify c1 h3) = fst (stringify c1 h1) \<and>
         fst (stringify p h3) = fst (stringify p h) \<and>
         take (length h) h1 = h \<and> take (length h1) h2 = h1 \<and> take (length h2) h3 = h2"
proof -
  from chain_extends [OF assms(2)] obtain xs where h1: "h1 = h @ xs" by blast
  from chain_extends [OF assms(3)] obtain ys where h2: "h2 = h1 @ ys" by blast
  from chain_extends [OF assms(4)] obtain zs where h3: "h3 = h2 @ zs" by blast
  from chain_in_store [OF assms(2,1)] have c1: "in_store h1 c1" .
  from h2 h3 have "h3 = h1 @ (ys @ zs)" by simp
  with stringify_append [OF c1, of "ys @ zs"]
  have "fst (stringify c1 h3) = fst (stringify c1 h1)" by simp
  moreover from h1 h2 h3 have "h3 = h @ (xs @ ys @ zs)" by simp
  with stringify_append [OF assms(1), of "xs @ ys @ zs"]
  have "fst (stringify p h3) = fst (stringify p h)" by simp
  moreover from h1 h2 h3
  have "take (length h) h1 = h \<and> take (length h1) h2 = h1 \<and> take (length h2) h3 = h2"
    by simp
  ultimately show ?thesis by blast
qed

text \<open>
  From \<open>p = element("div")\<close>: \<open>p.id("a")\<close>, and \<open>p.class("b")\<close> extended by \<open>class("c")\<close>.
\<close>

theorem shared_prefix_independent_witness:
  "in_store [\<lparr>prototype = ElementSelector, value = ''div'', prevValue = []\<rparr>] (Ref 0) \<and>
   fst (stringify (Ref 1)
     [\<lparr>prototype = ElementSelector, value = ''div'', prevValue = []\<rparr>,
      \<lparr>prototype = IdSelector, value = ''a'', prevValue = ''div''\<rparr>,
      \<lparr>prototype = ClassSelector, value = ''b'', prevValue = ''div''\<rparr>,
      \<lparr>prototype = ClassSelector, value = ''c'', prevValue = ''div.b''\<rparr>]) = Inr ''div#a'' \<and>
   fst (stringify (Ref 0)
     [\<lparr>prototype = ElementSelector, value = ''div'', prevValue = []\<rparr>,
      \<lparr>prototype = IdSelector, value = ''a'', prevValue = ''div''\<rparr>,
      \<lparr>prototype = ClassSelector, value = ''b'', prevValue = ''div''\<rparr>,
      \<lparr>prototype = ClassSelector, value = ''c'', prevValue = ''div.b''\<rparr>]) = Inr ''div''"
proof -
  let ?f0 = "\<lparr>prototype = ElementSelector, value = ''div'', prevValue = []\<rparr>"
  let ?f1 = "\<lparr>prototype = IdSelector, value = ''a'', prevValue = ''div''\<rparr>"
  let ?f2 = "\<lparr>prototype = ClassSelector, value = ''b'', prevValue = ''div''\<rparr>"
  let ?f3 = "\<lparr>prototype = ClassSelector, value = ''c'', prevValue = ''div.b''\<rparr>"
  have p: "in_store [?f0] (Ref 0)" by simp
  have c1: "chain [(id_m, ''a'')] (Ref 0) [?f0] = (Inr (Ref 1), [?f0, ?f1])"
    by (simp add: new_selector_def)
  have c2: "chain [(class_m, ''b'')] (Ref 0) [?f0, ?f1] = (Inr (Ref 2), [?f0, ?f1, ?f2])"
    by (simp add: new_selector_def)
  have c3: "chain [(class_m, ''c'')] (Ref 2) [?f0, ?f1, ?f2] = (Inr (Ref 3), [?f0, ?f1, ?f2, ?f3])"
    by (simp add: new_selector_def)
  have s1: "fst (stringify (Ref 1) [?f0, ?f1]) = Inr ''div#a''" by simp
  have s0: "fst (stringify (Ref 0) [?f0]) = Inr ''div''" by simp
  from shared_prefix_independent [OF p c1 c2 c3]
  have "fst (stringify (Ref 1) [?f0, ?f1, ?f2, ?f3]) = fst (stringify (Ref 1) [?f0, ?f1]) \<and>
        fst (stringify (Ref 0) [?f0, ?f1, ?f2, ?f3]) = fst (stringify (Ref 0) [?f0])"
    by blast
  with p show ?thesis by (simp only: s1 s0)
qed

text \<open>
  C10. A part operation on the builder is accepted whatever the payload; on any
  receiver, whether it throws and what it throws is the same for every two payloads, the
  empty string among them; and when it returns, the payload is stored as given and
  \<open>stringify\<close> of the result ends with the payload between the tokens of its kind.
\<close>

theorem any_payload_accepted:
  "call m v Builder h =
     (Inr (Ref (length h)), h @ [\<lparr>prototype = constructs m, value = v, prevValue = []\<rparr>]) \<and>
   (call m v r h = (Inl e, h') \<longleftrightarrow> call m v' r h = (Inl e, h')) \<and>
   (call m v r h = (Inr r', h') \<longrightarrow>
      (\<exists>prev. h' = h @ [\<lparr>prototype = constructs m, value = v, prevValue = prev\<rparr>] \<and>
         stringify r' h' = (Inr (prev @ perKindRender (constructs m) v), h')))"
proof (intro conjI impI)
  show "call m v Builder h =
     (Inr (Ref (length h)), h @ [\<lparr>prototype = constructs m, value = v, prevValue = []\<rparr>])"
    by (rule call_Builder)
  show "call m v r h = (Inl e, h') \<longleftrightarrow> call m v' r h = (Inl e, h')"
    using call_throws_payload [of m v r h e h' v'] call_throws_payload [of m v' r h e h' v]
    by blast
next
  assume "call m v r h = (Inr r', h')"
  from call_returns [OF this] obtain prev where r': "r' = Ref (length h)"
    and h': "h' = h @ [\<lparr>prototype = constructs m, value = v, prevValue = prev\<rparr>]" by blast
  have "stringify r' h' = (Inr (prev @ perKindRender (constructs m) v), h')"
    by (simp add: r' h' currentValueStr_perKindRender)
  with h' show "\<exists>prev. h' = h @ [\<lparr>prototype = constructs m, value = v, prevValue = prev\<rparr>] \<and>
         stringify r' h' = (Inr (prev @ perKindRender (constructs m) v), h')"
    by blast
qed

text \<open>
  \<open>id("").attr("")\<close> renders as \<open>#[]\<close>.
\<close>

theorem any_payload_accepted_witness:
  "call attr_m [] (Ref 0) [\<lparr>prototype = IdSelector, value = [], prevValue = []\<rparr>]
     = (Inr (Ref 1), [\<lparr>prototype = IdSelector, value = [], prevValue = []\<rparr>,
                      \<lparr>prototype = AttrSelector, value = [], prevValue = ''#''\<rparr>]) \<and>
   stringify (Ref 1) [\<lparr>prototype = IdSelector, value = [], prevValue = []\<rparr>,
                      \<lparr>prototype = AttrSelector, value = [], prevValue = ''#''\<rparr>]
     = (Inr ''#[]'', [\<lparr>prototype = IdSelector, value = [], prevValue = []\<rparr>,
                      \<lparr>prototype = AttrSelector, value = [], prevValue = ''#''\<rparr>])"
proof -
  let ?h = "[\<lparr>prototype = IdSelector, value = [], prevValue = []\<rparr>]"
  let ?h' = "[\<lparr>prototype = IdSelector, value = [], prevValue = []\<rparr>,
              \<lparr>prototype = AttrSelector, value = [], prevValue = ''#''\<rparr>]"
  have c: "call attr_m [] (Ref 0) ?h = (Inr (Ref 1), ?h')" by (simp add: new_selector_def)
  from any_payload_accepted [of attr_m "[]" ?h "Ref 0" _ ?h' _ "Ref 1"] c
  have "\<exists>prev. ?h' = ?h @ [\<lparr>prototype = constructs attr_m, value = [], prevValue = prev\<rparr>] \<and>
         stringify (Ref 1) ?h' = (Inr (prev @ perKindRender (constructs attr_m) []), ?h')"
    by blast
  then have "stringify (Ref 1) ?h' = (Inr ''#[]'', ?h')" by auto
  with c show ?thesis by (simp only:)
qed

end
